theory Spec2Isabelle
  imports Main
begin

section \<open>The Node.js services the extension calls\<close>

text \<open>
  \<^verbatim>\<open>extension.ts\<close> imports \<^verbatim>\<open>path\<close> and \<^verbatim>\<open>fs\<close>. Both are taken as parameters of
  the model: \<^verbatim>\<open>path.dirname\<close> and \<^verbatim>\<open>path.join\<close> differ between POSIX and Windows, and
  the answers of \<^verbatim>\<open>fs.existsSync\<close> and \<^verbatim>\<open>fs.statSync\<close> are the filesystem snapshot.
  \<^verbatim>\<open>fs.statSync\<close> throws on a path that does not exist: that is the answer \<open>None\<close>.
  Of the \<^verbatim>\<open>fs.Stats\<close> object the source reads \<^verbatim>\<open>isFile()\<close> only.
\<close>

record stats =
  isFile :: bool

record path_module =
  dirname :: "string \<Rightarrow> string"
  join :: "string \<Rightarrow> string \<Rightarrow> string"

record fs_module =
  existsSync :: "string \<Rightarrow> bool"
  statSync :: "string \<Rightarrow> stats option"

datatype error = ENOENT string

text \<open>
  The filesystem calls of a run, in the order they are made. \<open>ExistsSync d f\<close> is the
  call \<^verbatim>\<open>fs.existsSync(path.join(d, f))\<close>.
\<close>

datatype fs_call = StatSync string | ExistsSync string string

section \<open>detectProjectFiles\<close>

record ProjectFiles =
  cargoToml :: "string option"
  pythonProject :: "string option"

text \<open>
  JavaScript truthiness of a \<^verbatim>\<open>string | null\<close>: \<^verbatim>\<open>null\<close> and the empty string are falsy.
\<close>

definition truthy :: "string option \<Rightarrow> bool" where
  "truthy v = (case v of None \<Rightarrow> False | Some s \<Rightarrow> s \<noteq> [])"

text \<open>
  Lines 170-174. In \<^verbatim>\<open>fs.existsSync(cargoPath) && !result.cargoToml\<close> the call comes
  first, so it is made whether or not a manifest is already recorded.
\<close>

definition checkCargo ::
  "path_module \<Rightarrow> fs_module \<Rightarrow> string \<Rightarrow> ProjectFiles \<times> fs_call list
     \<Rightarrow> ProjectFiles \<times> fs_call list" where
  "checkCargo path fs currentDir = (\<lambda>(result, calls).
     let cargoPath = join path currentDir ''Cargo.toml'';
         calls = calls @ [ExistsSync currentDir ''Cargo.toml'']
     in if existsSync fs cargoPath \<and> \<not> truthy (cargoToml result)
        then (result\<lparr>cargoToml := Some cargoPath\<rparr>, calls)
        else (result, calls))"

text \<open>Lines 176-187: the \<^verbatim>\<open>if\<close> / \<^verbatim>\<open>else if\<close> chain over the three Python files.\<close>

definition checkPython ::
  "path_module \<Rightarrow> fs_module \<Rightarrow> string \<Rightarrow> ProjectFiles \<times> fs_call list
     \<Rightarrow> ProjectFiles \<times> fs_call list" where
  "checkPython path fs currentDir = (\<lambda>(result, calls).
     let pyprojectPath = join path currentDir ''pyproject.toml'';
         setupPyPath = join path currentDir ''setup.py'';
         requirementsPath = join path currentDir ''requirements.txt'';
         calls = calls @ [ExistsSync currentDir ''pyproject.toml'']
     in if existsSync fs pyprojectPath \<and> \<not> truthy (pythonProject result)
        then (result\<lparr>pythonProject := Some pyprojectPath\<rparr>, calls)
        else
          let calls = calls @ [ExistsSync currentDir ''setup.py'']
          in if existsSync fs setupPyPath \<and> \<not> truthy (pythonProject result)
             then (result\<lparr>pythonProject := Some setupPyPath\<rparr>, calls)
             else
               let calls = calls @ [ExistsSync currentDir ''requirements.txt'']
               in if existsSync fs requirementsPath \<and> \<not> truthy (pythonProject result)
                  then (result\<lparr>pythonProject := Some requirementsPath\<rparr>, calls)
                  else (result, calls))"

text \<open>Lines 170-187: everything one iteration of the \<^verbatim>\<open>while\<close> loop checks.\<close>

definition checkDir ::
  "path_module \<Rightarrow> fs_module \<Rightarrow> string \<Rightarrow> ProjectFiles \<times> fs_call list
     \<Rightarrow> ProjectFiles \<times> fs_call list" where
  "checkDir path fs currentDir st = checkPython path fs currentDir (checkCargo path fs currentDir st)"

definition foundBoth :: "ProjectFiles \<Rightarrow> bool" where
  "foundBoth result = (truthy (cargoToml result) \<and> truthy (pythonProject result))"

text \<open>
  Lines 169-201, the \<^verbatim>\<open>while (currentDir)\<close> loop. Nothing in the loop bounds the number
  of iterations, so not returning is the value \<open>None\<close>.
\<close>

partial_function (option) walkUp ::
  "path_module \<Rightarrow> fs_module \<Rightarrow> string \<Rightarrow> ProjectFiles \<times> fs_call list
     \<Rightarrow> (ProjectFiles \<times> fs_call list) option" where
  "walkUp path fs currentDir st =
     (if currentDir = [] then Some st
      else
        let st' = checkDir path fs currentDir st
        in if foundBoth (fst st') then Some st'
           else
             let parentDir = dirname path currentDir
             in if parentDir = currentDir then Some st'
                else walkUp path fs parentDir st')"

declare walkUp.simps [code]


text \<open>Line 166.\<close>

definition startDir :: "path_module \<Rightarrow> stats \<Rightarrow> string \<Rightarrow> string" where
  "startDir path st filePath = (if isFile st then dirname path filePath else filePath)"

text \<open>Lines 164-207, the \<^verbatim>\<open>for\<close> loop; a throw of \<^verbatim>\<open>fs.statSync\<close> leaves it.\<close>

fun forPaths ::
  "path_module \<Rightarrow> fs_module \<Rightarrow> string list \<Rightarrow> ProjectFiles \<times> fs_call list
     \<Rightarrow> ((error + ProjectFiles) \<times> fs_call list) option" where
  "forPaths path fs [] (result, calls) = Some (Inr result, calls)"
| "forPaths path fs (filePath # rest) (result, calls) =
     (let calls = calls @ [StatSync filePath]
      in case statSync fs filePath of
           None \<Rightarrow> Some (Inl (ENOENT filePath), calls)
         | Some st \<Rightarrow>
             (case walkUp path fs (startDir path st filePath) (result, calls) of
                None \<Rightarrow> None
              | Some (result, calls) \<Rightarrow>
                  if foundBoth result then Some (Inr result, calls)
                  else forPaths path fs rest (result, calls)))"

definition detectProjectFiles ::
  "path_module \<Rightarrow> fs_module \<Rightarrow> string list \<Rightarrow> ((error + ProjectFiles) \<times> fs_call list) option" where
  "detectProjectFiles path fs paths =
     forPaths path fs paths (\<lparr>cargoToml = None, pythonProject = None\<rparr>, [])"

section \<open>A POSIX instance of the services\<close>

text \<open>
  Node's \<^verbatim>\<open>path.posix.dirname\<close>: the scan runs from the last index down to index 1,
  skips trailing separators, and stops at the first separator below a character that is
  not one. \<open>None\<close> is the source's \<^verbatim>\<open>end === -1\<close>.
\<close>

fun dirname_scan :: "string \<Rightarrow> nat \<Rightarrow> bool \<Rightarrow> nat option" where
  "dirname_scan p 0 matchedSlash = None"
| "dirname_scan p (Suc i) matchedSlash =
     (if p ! Suc i = CHR ''/''
      then (if \<not> matchedSlash then Some (Suc i) else dirname_scan p i matchedSlash)
      else dirname_scan p i False)"

definition posix_dirname :: "string \<Rightarrow> string" where
  "posix_dirname p =
     (if p = [] then ''.''
      else
        let hasRoot = (hd p = CHR ''/'')
        in case dirname_scan p (length p - 1) True of
             None \<Rightarrow> (if hasRoot then ''/'' else ''.'')
           | Some e \<Rightarrow> (if hasRoot \<and> e = 1 then ''//'' else take e p))"

text \<open>
  What decreases along \<open>posix_dirname\<close> until it reaches \<^verbatim>\<open>/\<close> or \<^verbatim>\<open>.\<close>, where it stays.
\<close>

definition depth :: "string \<Rightarrow> nat" where
  "depth d = (if d = ''.'' then 0 else length d)"

text \<open>
  Node's \<^verbatim>\<open>path.posix.join\<close> of two arguments, by segments: empty arguments are
  dropped, the rest are joined with a separator and normalised (empty and \<^verbatim>\<open>.\<close> segments
  go, \<^verbatim>\<open>..\<close> removes the segment before it).
\<close>

fun splitOn :: "char \<Rightarrow> string \<Rightarrow> string list" where
  "splitOn c [] = [[]]"
| "splitOn c (x # xs) =
     (if x = c then [] # splitOn c xs
      else (case splitOn c xs of [] \<Rightarrow> [[x]] | s # ss \<Rightarrow> (x # s) # ss))"

fun joinWith :: "string \<Rightarrow> string list \<Rightarrow> string" where
  "joinWith sep [] = []"
| "joinWith sep [s] = s"
| "joinWith sep (s # t # ss) = s @ sep @ joinWith sep (t # ss)"

fun normalizeSegments :: "bool \<Rightarrow> string list \<Rightarrow> string list \<Rightarrow> string list" where
  "normalizeSegments allowAboveRoot res [] = res"
| "normalizeSegments allowAboveRoot res (seg # segs) =
     (if seg = [] \<or> seg = ''.'' then normalizeSegments allowAboveRoot res segs
      else if seg = ''..''
      then (if res \<noteq> [] \<and> last res \<noteq> ''..''
            then normalizeSegments allowAboveRoot (butlast res) segs
            else if allowAboveRoot then normalizeSegments allowAboveRoot (res @ [''..'']) segs
            else normalizeSegments allowAboveRoot res segs)
      else normalizeSegments allowAboveRoot (res @ [seg]) segs)"

definition posix_normalize :: "string \<Rightarrow> string" where
  "posix_normalize p =
     (if p = [] then ''.''
      else
        let isAbsolute = (hd p = CHR ''/'');
            trailingSeparator = (last p = CHR ''/'');
            body = joinWith ''/'' (normalizeSegments (\<not> isAbsolute) [] (splitOn CHR ''/'' p))
        in if body = []
           then (if isAbsolute then ''/'' else if trailingSeparator then ''./'' else ''.'')
           else (if isAbsolute then ''/'' else []) @ body
                  @ (if trailingSeparator then ''/'' else []))"

definition posix_join :: "string \<Rightarrow> string \<Rightarrow> string" where
  "posix_join a b =
     (let parts = filter (\<lambda>s. s \<noteq> []) [a, b]
      in if parts = [] then ''.'' else posix_normalize (joinWith ''/'' parts))"

definition posix :: path_module where
  "posix = \<lparr>dirname = posix_dirname, join = posix_join\<rparr>"

text \<open>A snapshot given by the lists of its regular files and of its directories.\<close>

definition snapshot :: "string list \<Rightarrow> string list \<Rightarrow> fs_module" where
  "snapshot files dirs =
     \<lparr>existsSync = (\<lambda>p. p \<in> set files \<or> p \<in> set dirs),
      statSync = (\<lambda>p. if p \<in> set files then Some \<lparr>isFile = True\<rparr>
                       else if p \<in> set dirs then Some \<lparr>isFile = False\<rparr>
                       else None)\<rparr>"

section \<open>The command handler\<close>

text \<open>
  Line 90: \<^verbatim>\<open>Array.prototype.join\<close> is \<open>joinWith\<close>; a template literal prints
  \<^verbatim>\<open>null\<close> as the text \<^verbatim>\<open>null\<close>; \<^verbatim>\<open>includes\<close> compares with strict equality, so
  \<^verbatim>\<open>null\<close> is never included in a list of strings.
\<close>

definition str :: "string option \<Rightarrow> string" where
  "str v = (case v of None \<Rightarrow> ''null'' | Some s \<Rightarrow> s)"

definition includes_js :: "string list \<Rightarrow> string option \<Rightarrow> bool" where
  "includes_js xs v = (case v of None \<Rightarrow> False | Some s \<Rightarrow> s \<in> set xs)"

definition dquote :: string where
  "dquote = [CHR 0x22]"

text \<open>Lines 90-100.\<close>

definition commandArgs :: "string list \<Rightarrow> ProjectFiles \<Rightarrow> string" where
  "commandArgs selectedPaths projectFiles =
     (let commandArgs = joinWith '' '' (map (\<lambda>p. dquote @ p @ dquote) selectedPaths);
          commandArgs =
            (if truthy (cargoToml projectFiles) \<and> \<not> includes_js selectedPaths (cargoToml projectFiles)
             then commandArgs @ '' --cargo-toml '' @ dquote @ str (cargoToml projectFiles) @ dquote
             else commandArgs);
          commandArgs =
            (if truthy (pythonProject projectFiles)
                \<and> \<not> includes_js selectedPaths (pythonProject projectFiles)
             then commandArgs @ '' --pyproject '' @ dquote @ str (pythonProject projectFiles) @ dquote
             else commandArgs)
      in commandArgs)"

text \<open>Line 102.\<close>

definition command :: "string \<Rightarrow> string list \<Rightarrow> ProjectFiles \<Rightarrow> string" where
  "command binPath selectedPaths projectFiles =
     dquote @ binPath @ dquote @ '' '' @ commandArgs selectedPaths projectFiles"

text \<open>
  Node's message of the error \<^verbatim>\<open>fs.statSync\<close> throws, which the \<^verbatim>\<open>catch\<close> of line 133
  shows.
\<close>

definition message :: "error \<Rightarrow> string" where
  "message e =
     (case e of ENOENT p \<Rightarrow>
        ''ENOENT: no such file or directory, stat '' @ [CHR 0x27] @ p @ [CHR 0x27])"

datatype action = ShowErrorMessage string | Exec string

text \<open>
  Lines 60-135 of the handler, from the selected paths to what it does next: an error
  notification, or the execution of the command line.
\<close>

definition copyProject ::
  "path_module \<Rightarrow> fs_module \<Rightarrow> string \<Rightarrow> string list \<Rightarrow> action option" where
  "copyProject path fs binPath selectedPaths =
     (if selectedPaths = [] then Some (ShowErrorMessage ''No files or directories selected.'')
      else if \<not> existsSync fs binPath
      then Some (ShowErrorMessage ''Code Copier binary not found. Please check the installation.'')
      else
        (case detectProjectFiles path fs selectedPaths of
           None \<Rightarrow> None
         | Some (Inl err, calls) \<Rightarrow> Some (ShowErrorMessage (''Error: '' @ message err))
         | Some (Inr projectFiles, calls) \<Rightarrow>
             Some (Exec (command binPath selectedPaths projectFiles))))"

subsection \<open>The summary read back from standard output\<close>

text \<open>
  \<^verbatim>\<open>String.prototype.match\<close> with a regular expression without the \<^verbatim>\<open>g\<close> flag returns
  the leftmost match: \<open>search\<close> tries the pattern at index 0, 1, ... and returns the
  capture group of the first position where it matches.
\<close>

fun search :: "(string \<Rightarrow> string option) \<Rightarrow> string \<Rightarrow> string option" where
  "search pat [] = pat []"
| "search pat (c # cs) = (case pat (c # cs) of Some g \<Rightarrow> Some g | None \<Rightarrow> search pat cs)"

fun stripPrefix :: "string \<Rightarrow> string \<Rightarrow> string option" where
  "stripPrefix [] s = Some s"
| "stripPrefix (x # xs) [] = None"
| "stripPrefix (x # xs) (c # cs) = (if x = c then stripPrefix xs cs else None)"

text \<open>The classes \<^verbatim>\<open>\d\<close> and \<^verbatim>\<open>\w\<close> of a regular expression without flags.\<close>

definition isDigit :: "char \<Rightarrow> bool" where
  "isDigit c = (c \<in> set ''0123456789'')"

definition isWord :: "char \<Rightarrow> bool" where
  "isWord c =
     (c \<in> set ''abcdefghijklmnopqrstuvwxyzABCDEFGHIJKLMNOPQRSTUVWXYZ0123456789_'')"

text \<open>
  The three patterns of lines 117-119, tried at the start of \<open>s\<close>. A greedy \<^verbatim>\<open>\d+\<close> or
  \<^verbatim>\<open>\w+\<close> takes the longest run. In the second pattern a shorter run of digits would
  have to be followed by a space where a digit stands, so backtracking finds nothing more.
\<close>

definition filesPattern :: "string \<Rightarrow> string option" where
  "filesPattern s =
     (case stripPrefix ''Files processed: '' s of
        None \<Rightarrow> None
      | Some r \<Rightarrow> (let g = takeWhile isDigit r in if g = [] then None else Some g))"

definition sizePattern :: "string \<Rightarrow> string option" where
  "sizePattern s =
     (case stripPrefix ''Total size: '' s of
        None \<Rightarrow> None
      | Some r \<Rightarrow>
          (let g = takeWhile isDigit r
           in if g = [] then None
              else (case stripPrefix '' characters'' (dropWhile isDigit r) of
                      None \<Rightarrow> None
                    | Some t \<Rightarrow> Some g)))"

definition typePattern :: "string \<Rightarrow> string option" where
  "typePattern s =
     (case stripPrefix ''Project type: '' s of
        None \<Rightarrow> None
      | Some r \<Rightarrow> (let g = takeWhile isWord r in if g = [] then None else Some g))"

text \<open>Lines 117-123.\<close>

definition filesCount :: "string \<Rightarrow> string" where
  "filesCount stdout =
     (case search filesPattern stdout of Some g \<Rightarrow> g | None \<Rightarrow> ''multiple'')"

definition charCount :: "string \<Rightarrow> string" where
  "charCount stdout =
     (case search sizePattern stdout of Some g \<Rightarrow> g | None \<Rightarrow> ''unknown'')"

definition projectType :: "string \<Rightarrow> string" where
  "projectType stdout =
     (case search typePattern stdout of Some g \<Rightarrow> g | None \<Rightarrow> ''unknown'')"

text \<open>Lines 125-127: the text of the notification.\<close>

definition summaryMessage :: "string \<Rightarrow> string" where
  "summaryMessage stdout =
     ''Files copied to clipboard! ('' @ filesCount stdout @ '' files, '' @ charCount stdout
       @ '' characters, '' @ projectType stdout @ '' project)''"

subsection \<open>The shape of the three patterns\<close>

text \<open>
  A literal followed by a captured run of one character class: the first and the third
  pattern are of this shape (\<open>filesPattern_run\<close>, \<open>typePattern_run\<close> below).
\<close>

definition runPattern :: "string \<Rightarrow> (char \<Rightarrow> bool) \<Rightarrow> string \<Rightarrow> string option" where
  "runPattern lit P s =
     (case stripPrefix lit s of
        None \<Rightarrow> None
      | Some r \<Rightarrow> (let g = takeWhile P r in if g = [] then None else Some g))"

text \<open>The same with a literal required after the run: the second pattern.\<close>

definition runThenPattern ::
  "string \<Rightarrow> (char \<Rightarrow> bool) \<Rightarrow> string \<Rightarrow> string \<Rightarrow> string option" where
  "runThenPattern lit P tail s =
     (case stripPrefix lit s of
        None \<Rightarrow> None
      | Some r \<Rightarrow>
          (let g = takeWhile P r
           in if g = [] then None
              else (case stripPrefix tail (dropWhile P r) of
                      None \<Rightarrow> None
                    | Some t \<Rightarrow> Some g)))"

section \<open>Reading the log of filesystem calls\<close>

text \<open>The \<^verbatim>\<open>existsSync\<close> calls of a log, as pairs of directory and file name.\<close>

fun probes :: "fs_call list \<Rightarrow> (string \<times> string) list" where
  "probes [] = []"
| "probes (StatSync p # cs) = probes cs"
| "probes (ExistsSync d f # cs) = (d, f) # probes cs"

text \<open>
  The directories a log visits: each iteration of the loop starts with the call for
  \<^verbatim>\<open>Cargo.toml\<close>.
\<close>

definition visited :: "fs_call list \<Rightarrow> string list" where
  "visited calls = map fst (filter (\<lambda>(d, f). f = ''Cargo.toml'') (probes calls))"

text \<open>
  The first call of a log, among those for the file names \<open>names\<close>, that the snapshot
  answers with \<^verbatim>\<open>true\<close>; the value is the path that was asked for.
\<close>

definition firstHit ::
  "path_module \<Rightarrow> fs_module \<Rightarrow> string list \<Rightarrow> fs_call list \<Rightarrow> string option" where
  "firstHit path fs names calls =
     map_option (\<lambda>(d, f). join path d f)
       (find (\<lambda>(d, f). f \<in> set names \<and> existsSync fs (join path d f)) (probes calls))"

definition pythonNames :: "string list" where
  "pythonNames = [''pyproject.toml'', ''setup.py'', ''requirements.txt'']"

text \<open>
  The invariant of the iteration: what is recorded for a kind is the first hit of the log
  for the file names of that kind.
\<close>

definition recorded :: "path_module \<Rightarrow> fs_module \<Rightarrow> ProjectFiles \<times> fs_call list \<Rightarrow> bool" where
  "recorded path fs st =
     (cargoToml (fst st) = firstHit path fs [''Cargo.toml''] (snd st)
      \<and> pythonProject (fst st) = firstHit path fs pythonNames (snd st))"

text \<open>Whether two snapshots give a call the same answer.\<close>

fun sameAnswer :: "path_module \<Rightarrow> fs_module \<Rightarrow> fs_module \<Rightarrow> fs_call \<Rightarrow> bool" where
  "sameAnswer path fs fs' (StatSync p) = (statSync fs p = statSync fs' p)"
| "sameAnswer path fs fs' (ExistsSync d f) =
     (existsSync fs (join path d f) = existsSync fs' (join path d f))"

section \<open>The loop, one step at a time\<close>

lemma walkUp_unfold_stop:
  "d \<noteq> [] \<Longrightarrow> foundBoth (fst (checkDir path fs d st)) \<or> dirname path d = d
     \<Longrightarrow> walkUp path fs d st = Some (checkDir path fs d st)"
  by (subst walkUp.simps) (auto simp: Let_def)

lemma walkUp_unfold_step:
  "d \<noteq> [] \<Longrightarrow> \<not> foundBoth (fst (checkDir path fs d st)) \<Longrightarrow> dirname path d \<noteq> d
     \<Longrightarrow> walkUp path fs d st = walkUp path fs (dirname path d) (checkDir path fs d st)"
  by (subst walkUp.simps) (auto simp: Let_def)

lemma walkUp_unfold_empty: "walkUp path fs [] st = Some st"
  by (subst walkUp.simps) simp

lemma walkUp_induct [consumes 1, case_names empty stop step]:
  assumes run: "walkUp path fs d st = Some st'"
    and empty: "\<And>st. Q [] st st"
    and stop: "\<And>d st. d \<noteq> [] \<Longrightarrow> foundBoth (fst (checkDir path fs d st)) \<or> dirname path d = d
                 \<Longrightarrow> Q d st (checkDir path fs d st)"
    and step: "\<And>d st st'. d \<noteq> [] \<Longrightarrow> \<not> foundBoth (fst (checkDir path fs d st))
                 \<Longrightarrow> dirname path d \<noteq> d
                 \<Longrightarrow> walkUp path fs (dirname path d) (checkDir path fs d st) = Some st'
                 \<Longrightarrow> Q (dirname path d) (checkDir path fs d st) st' \<Longrightarrow> Q d st st'"
  shows "Q d st st'"
proof -
  have "path = path \<longrightarrow> fs = fs \<longrightarrow> Q d st st' \<and> walkUp path fs d st = Some st'"
  proof (rule walkUp.raw_induct
      [where P = "\<lambda>p f d st st'. p = path \<longrightarrow> f = fs
                     \<longrightarrow> Q d st st' \<and> walkUp path fs d st = Some st'"])
    show "walkUp path fs d st = Some st'" by (rule run)
  next
    fix w p f d st st'
    assume IH: "\<And>p f d st st'. w p f d st = Some st'
                  \<Longrightarrow> p = path \<longrightarrow> f = fs \<longrightarrow> Q d st st' \<and> walkUp path fs d st = Some st'"
      and body: "(if d = [] then Some st
        else let st' = checkDir p f d st
             in if foundBoth (fst st') then Some st'
                else let parentDir = dirname p d
                     in if parentDir = d then Some st' else w p f parentDir st') = Some st'"
    show "p = path \<longrightarrow> f = fs \<longrightarrow> Q d st st' \<and> walkUp path fs d st = Some st'"
    proof (intro impI)
      assume pf: "p = path" "f = fs"
      show "Q d st st' \<and> walkUp path fs d st = Some st'"
      proof (cases "d = []")
        case True
        with body show ?thesis by (simp add: empty walkUp_unfold_empty)
      next
        case False
        show ?thesis
        proof (cases "foundBoth (fst (checkDir path fs d st)) \<or> dirname path d = d")
          case True
          with body False pf have "st' = checkDir path fs d st"
            by (auto simp: Let_def split: if_splits)
          with stop [OF False True] walkUp_unfold_stop [OF False True] show ?thesis by simp
        next
          case go: False
          with body False pf
          have rec: "w path fs (dirname path d) (checkDir path fs d st) = Some st'"
            by (auto simp: Let_def split: if_splits)
          have q: "Q (dirname path d) (checkDir path fs d st) st'"
            and r: "walkUp path fs (dirname path d) (checkDir path fs d st) = Some st'"
            using IH [OF rec] by simp_all
          from go have g1: "\<not> foundBoth (fst (checkDir path fs d st))"
            and g2: "dirname path d \<noteq> d" by simp_all
          from step [OF False g1 g2 r q] walkUp_unfold_step [OF False g1 g2] r
          show ?thesis by simp
        qed
      qed
    qed
  qed
  then show ?thesis by simp
qed

lemma checkDir_calls: "\<exists>w. snd (checkDir path fs d st) = snd st @ w"
  by (cases st) (simp add: checkDir_def checkPython_def checkCargo_def Let_def)

lemma walkUp_calls:
  assumes "walkUp path fs d st = Some st'"
  shows "\<exists>w. snd st' = snd st @ w"
  using assms
proof (induction rule: walkUp_induct)
  case (empty st)
  then show ?case by simp
next
  case (stop d st)
  then show ?case using checkDir_calls by blast
next
  case (step d st st')
  then show ?case using checkDir_calls [of path fs d st] by auto
qed

lemma probes_append: "probes (xs @ ys) = probes xs @ probes ys"
  by (induction xs rule: probes.induct) auto

lemma probes_ExistsSync: "probes (map (ExistsSync d) fs) = map (Pair d) fs"
  by (induction fs) auto

lemma checkDir_snd:
  "\<exists>k. 0 < k \<and> snd (checkDir path fs d st)
          = snd st @ ExistsSync d ''Cargo.toml'' # map (ExistsSync d) (take k pythonNames)"
proof -
  obtain r c where st: "st = (r, c)" by (cases st)
  have "snd (checkCargo path fs d (r, c)) = c @ [ExistsSync d ''Cargo.toml'']"
    by (simp add: checkCargo_def Let_def)
  then obtain r' where c: "checkCargo path fs d (r, c) = (r', c @ [ExistsSync d ''Cargo.toml''])"
    by (metis prod.collapse)
  have "snd (checkPython path fs d (r', c @ [ExistsSync d ''Cargo.toml'']))
          = (c @ [ExistsSync d ''Cargo.toml'']) @ map (ExistsSync d) (take 1 pythonNames)
      \<or> snd (checkPython path fs d (r', c @ [ExistsSync d ''Cargo.toml'']))
          = (c @ [ExistsSync d ''Cargo.toml'']) @ map (ExistsSync d) (take 2 pythonNames)
      \<or> snd (checkPython path fs d (r', c @ [ExistsSync d ''Cargo.toml'']))
          = (c @ [ExistsSync d ''Cargo.toml'']) @ map (ExistsSync d) (take 3 pythonNames)"
    by (simp add: checkPython_def pythonNames_def Let_def)
  then show ?thesis
    unfolding checkDir_def st c by (metis append.assoc append_Cons append_Nil snd_conv
        zero_less_numeral zero_less_one)
qed

lemma visited_append: "visited (xs @ ys) = visited xs @ visited ys"
  by (simp add: visited_def probes_append)

lemma visited_python: "visited (map (ExistsSync d) (take k pythonNames)) = []"
proof -
  have "\<forall>f\<in>set (take k pythonNames). f \<noteq> ''Cargo.toml''"
    by (auto simp: pythonNames_def dest!: in_set_takeD)
  then show ?thesis
    by (auto simp: visited_def probes_ExistsSync filter_empty_conv)
qed

lemma visited_checkDir: "visited (snd (checkDir path fs d st)) = visited (snd st) @ [d]"
proof -
  from checkDir_snd [of path fs d st] obtain k where
    "snd (checkDir path fs d st)
          = snd st @ ExistsSync d ''Cargo.toml'' # map (ExistsSync d) (take k pythonNames)"
    by blast
  then have "visited (snd (checkDir path fs d st))
      = visited (snd st) @ visited [ExistsSync d ''Cargo.toml'']
          @ visited (map (ExistsSync d) (take k pythonNames))"
    by (simp only: visited_append [symmetric] append_Cons append_Nil)
  then show ?thesis by (simp add: visited_python) (simp add: visited_def)
qed

section \<open>The POSIX instance\<close>

lemma dirname_scan_bound:
  "dirname_scan p i b = Some e \<Longrightarrow> 0 < e \<and> e \<le> i \<and> (b \<longrightarrow> e < i)"
proof (induction i arbitrary: b)
  case 0
  then show ?case by simp
next
  case (Suc i)
  show ?case
  proof (cases "p ! Suc i = CHR ''/''")
    case True
    show ?thesis
    proof (cases b)
      case True
      with Suc.prems \<open>p ! Suc i = CHR ''/''\<close> have "dirname_scan p i True = Some e" by simp
      from Suc.IH [OF this] show ?thesis by simp
    next
      case False
      with Suc.prems \<open>p ! Suc i = CHR ''/''\<close> show ?thesis by simp
    qed
  next
    case False
    with Suc.prems have "dirname_scan p i False = Some e" by simp
    from Suc.IH [OF this] show ?thesis by simp
  qed
qed

lemma posix_dirname_decreases:
  assumes "d \<noteq> []" "posix_dirname d \<noteq> d"
  shows "depth (posix_dirname d) < depth d"
proof (cases "dirname_scan d (length d - 1) True")
  case None
  show ?thesis
  proof (cases "hd d = CHR ''/''")
    case True
    with None assms have r: "posix_dirname d = ''/''" by (simp add: posix_dirname_def)
    with assms True have "length d \<noteq> 1" by (cases d) auto
    with assms(1) have "1 < length d" by (cases d) auto
    moreover from True assms(1) have "d \<noteq> ''.''" by auto
    ultimately show ?thesis by (simp add: r depth_def)
  next
    case False
    with None assms have r: "posix_dirname d = ''.''" by (simp add: posix_dirname_def)
    with assms show ?thesis by (auto simp: depth_def)
  qed
next
  case (Some e)
  from dirname_scan_bound [OF Some] have e: "0 < e" "e < length d - 1" by simp_all
  then have len: "2 < length d" by simp
  then have nd: "d \<noteq> ''.''" by auto
  show ?thesis
  proof (cases "hd d = CHR ''/'' \<and> e = 1")
    case True
    with Some assms have "posix_dirname d = ''//''" by (simp add: posix_dirname_def)
    with len nd show ?thesis by (simp add: depth_def)
  next
    case False
    with Some assms have "posix_dirname d = take e d" by (auto simp: posix_dirname_def)
    moreover have "depth (take e d) \<le> e" using e by (simp add: depth_def)
    ultimately show ?thesis using e nd by (simp add: depth_def)
  qed
qed

lemma posix_sel: "dirname posix = posix_dirname" "join posix = posix_join"
  by (simp_all add: posix_def)

lemma joinWith_nonempty: "s \<noteq> [] \<Longrightarrow> joinWith sep (s # ss) \<noteq> []"
  by (cases ss) auto

lemma posix_normalize_nonempty: "posix_normalize p \<noteq> []"
  by (simp add: posix_normalize_def Let_def)

lemma posix_join_nonempty: "posix_join a b \<noteq> []"
  by (simp add: posix_join_def Let_def posix_normalize_nonempty)

section \<open>The summary patterns\<close>

lemma stripPrefix_Some: "stripPrefix xs s = Some r \<longleftrightarrow> s = xs @ r"
  by (induction xs s rule: stripPrefix.induct) auto

lemma search_Some: "search pat s = Some g \<Longrightarrow> \<exists>pre suf. s = pre @ suf \<and> pat suf = Some g"
proof (induction s)
  case Nil
  then show ?case by simp
next
  case (Cons c cs)
  show ?case
  proof (cases "pat (c # cs)")
    case None
    with Cons obtain pre suf where "cs = pre @ suf" "pat suf = Some g" by auto
    then have "c # cs = (c # pre) @ suf \<and> pat suf = Some g" by simp
    then show ?thesis by blast
  next
    case (Some a)
    with Cons.prems have "c # cs = [] @ (c # cs) \<and> pat (c # cs) = Some g" by simp
    then show ?thesis by blast
  qed
qed

lemma search_None: "search pat (pre @ suf) = None \<Longrightarrow> pat suf = None"
proof (induction pre)
  case Nil
  then show ?case by (cases suf) (auto split: option.splits)
next
  case (Cons c pre)
  then show ?case by (auto split: option.splits)
qed

lemma search_matches:
  assumes "pat suf \<noteq> None"
  shows "search pat (pre @ suf) \<noteq> None"
proof
  assume "search pat (pre @ suf) = None"
  then have "pat suf = None" by (rule search_None)
  with assms show False by simp
qed

lemma runPattern_Some:
  assumes "runPattern lit P s = Some g"
  shows "g \<noteq> [] \<and> (\<forall>c\<in>set g. P c) \<and> (\<exists>post. s = lit @ g @ post)"
proof -
  from assms obtain r where r: "stripPrefix lit s = Some r" and g: "takeWhile P r = g" "g \<noteq> []"
    by (auto simp: runPattern_def Let_def split: option.splits if_splits)
  have "r = g @ dropWhile P r" using g(1) by (metis takeWhile_dropWhile_id)
  moreover have "\<forall>c\<in>set g. P c" using g(1) by (auto dest: set_takeWhileD)
  moreover have "s = lit @ r" using r by (simp only: stripPrefix_Some)
  ultimately show ?thesis using g(2) by metis
qed

lemma runPattern_matches:
  assumes "g \<noteq> []" "\<forall>c\<in>set g. P c"
  shows "runPattern lit P (lit @ g @ post) \<noteq> None"
proof -
  have "stripPrefix lit (lit @ g @ post) = Some (g @ post)" by (simp add: stripPrefix_Some)
  moreover have "takeWhile P (g @ post) \<noteq> []" using assms by (cases g) auto
  ultimately show ?thesis by (simp add: runPattern_def Let_def)
qed

lemma search_run_sound:
  assumes "search (runPattern lit P) out = Some g"
  shows "g \<noteq> [] \<and> (\<forall>c\<in>set g. P c) \<and> (\<exists>pre post. out = pre @ lit @ g @ post)"
proof -
  from search_Some [OF assms] obtain pre suf
    where o: "out = pre @ suf" and p: "runPattern lit P suf = Some g" by blast
  from runPattern_Some [OF p] obtain post
    where "g \<noteq> []" "\<forall>c\<in>set g. P c" "suf = lit @ g @ post" by blast
  with o show ?thesis by blast
qed

lemma search_run_complete:
  assumes "g \<noteq> []" "\<forall>c\<in>set g. P c"
  shows "search (runPattern lit P) (pre @ lit @ g @ post) \<noteq> None"
  by (rule search_matches) (rule runPattern_matches [OF assms])

lemma filesPattern_run: "filesPattern = runPattern ''Files processed: '' isDigit"
  by (rule ext) (simp only: filesPattern_def runPattern_def)

lemma typePattern_run: "typePattern = runPattern ''Project type: '' isWord"
  by (rule ext) (simp only: typePattern_def runPattern_def)

lemma runThenPattern_Some:
  assumes "runThenPattern lit P tail s = Some g"
  shows "g \<noteq> [] \<and> (\<forall>c\<in>set g. P c) \<and> (\<exists>post. s = lit @ g @ tail @ post)"
proof -
  from assms obtain r t where r: "stripPrefix lit s = Some r"
    and g: "takeWhile P r = g" "g \<noteq> []"
    and t: "stripPrefix tail (dropWhile P r) = Some t"
    unfolding runThenPattern_def by (auto simp: Let_def split: option.splits if_splits)
  have "r = g @ dropWhile P r" using g(1) by (metis takeWhile_dropWhile_id)
  moreover have "dropWhile P r = tail @ t" using t by (simp only: stripPrefix_Some)
  moreover have "\<forall>c\<in>set g. P c" using g(1) by (auto dest: set_takeWhileD)
  moreover have "s = lit @ r" using r by (simp only: stripPrefix_Some)
  ultimately show ?thesis using g(2) by metis
qed

lemma runThenPattern_matches:
  assumes "g \<noteq> []" "\<forall>c\<in>set g. P c" "tail \<noteq> []" "\<not> P (hd tail)"
  shows "runThenPattern lit P tail (lit @ g @ tail @ post) = Some g"
proof -
  let ?r = "g @ tail @ post"
  obtain x xs where tl: "tail = x # xs" using assms(3) by (cases tail) auto
  with assms(4) have nx: "\<not> P x" by simp
  have s: "stripPrefix lit (lit @ ?r) = Some ?r"
    by (simp only: stripPrefix_Some)
  have tw: "takeWhile P ?r = g" using assms(2) nx by (simp add: tl)
  have dw: "dropWhile P ?r = tail @ post" using assms(2) nx by (simp add: tl)
  have t: "stripPrefix tail (tail @ post) = Some post"
    by (simp only: stripPrefix_Some)
  show ?thesis unfolding runThenPattern_def s using assms(1)
    by (simp only: option.case Let_def tw dw t if_False)
qed

lemma search_runThen_sound:
  assumes "search (runThenPattern lit P tail) out = Some g"
  shows "g \<noteq> [] \<and> (\<forall>c\<in>set g. P c) \<and> (\<exists>pre post. out = pre @ lit @ g @ tail @ post)"
proof -
  from search_Some [OF assms] obtain pre suf
    where o: "out = pre @ suf" and p: "runThenPattern lit P tail suf = Some g" by blast
  from runThenPattern_Some [OF p] obtain post
    where "g \<noteq> []" "\<forall>c\<in>set g. P c" "suf = lit @ g @ tail @ post" by blast
  with o show ?thesis by blast
qed

lemma search_runThen_complete:
  assumes "g \<noteq> []" "\<forall>c\<in>set g. P c" "tail \<noteq> []" "\<not> P (hd tail)"
  shows "search (runThenPattern lit P tail) (pre @ lit @ g @ tail @ post) \<noteq> None"
proof -
  have "runThenPattern lit P tail (lit @ g @ tail @ post) \<noteq> None"
    using runThenPattern_matches [OF assms] by simp
  then show ?thesis by (rule search_matches)
qed

lemma sizePattern_run: "sizePattern = runThenPattern ''Total size: '' isDigit '' characters''"
  by (rule ext) (simp only: sizePattern_def runThenPattern_def)

lemma space_not_digit: "\<not> isDigit (hd '' characters'')" "'' characters'' \<noteq> []"
  by (simp_all add: isDigit_def)

text \<open>
  C6. The summary is read from standard output through the three patterns only: the
  notification is made of the three captures. A capture of \<^verbatim>\<open>Files processed: (\d+)\<close> or of
  \<^verbatim>\<open>Total size: (\d+) characters\<close> is a non-empty string of decimal digits that stands
  in the output right after the literal (and, for the size, right before
  \<^verbatim>\<open> characters\<close>); a capture of \<^verbatim>\<open>Project type: (\w+)\<close> is a non-empty string of word
  characters after its literal. Conversely an output in which such an occurrence stands
  is matched.
\<close>

theorem summary_patterns:
  "(search filesPattern out = Some g1 \<longrightarrow>
      g1 \<noteq> [] \<and> (\<forall>c\<in>set g1. isDigit c)
      \<and> (\<exists>pre post. out = pre @ ''Files processed: '' @ g1 @ post))
   \<and> (search sizePattern out = Some g2 \<longrightarrow>
      g2 \<noteq> [] \<and> (\<forall>c\<in>set g2. isDigit c)
      \<and> (\<exists>pre post. out = pre @ ''Total size: '' @ g2 @ '' characters'' @ post))
   \<and> (search typePattern out = Some g3 \<longrightarrow>
      g3 \<noteq> [] \<and> (\<forall>c\<in>set g3. isWord c)
      \<and> (\<exists>pre post. out = pre @ ''Project type: '' @ g3 @ post))
   \<and> (g \<noteq> [] \<and> (\<forall>c\<in>set g. isDigit c) \<longrightarrow>
        search filesPattern (pre @ ''Files processed: '' @ g @ post) \<noteq> None
        \<and> search sizePattern (pre @ ''Total size: '' @ g @ '' characters'' @ post) \<noteq> None)
   \<and> (g \<noteq> [] \<and> (\<forall>c\<in>set g. isWord c) \<longrightarrow>
        search typePattern (pre @ ''Project type: '' @ g @ post) \<noteq> None)
   \<and> summaryMessage out =
        ''Files copied to clipboard! (''
        @ (case search filesPattern out of Some n \<Rightarrow> n | None \<Rightarrow> ''multiple'') @ '' files, ''
        @ (case search sizePattern out of Some n \<Rightarrow> n | None \<Rightarrow> ''unknown'') @ '' characters, ''
        @ (case search typePattern out of Some l \<Rightarrow> l | None \<Rightarrow> ''unknown'') @ '' project)''"
proof -
  have f: "search filesPattern out = Some g1 \<longrightarrow>
      g1 \<noteq> [] \<and> (\<forall>c\<in>set g1. isDigit c)
      \<and> (\<exists>pre post. out = pre @ ''Files processed: '' @ g1 @ post)"
    unfolding filesPattern_run by (rule impI) (rule search_run_sound)
  have s: "search sizePattern out = Some g2 \<longrightarrow>
      g2 \<noteq> [] \<and> (\<forall>c\<in>set g2. isDigit c)
      \<and> (\<exists>pre post. out = pre @ ''Total size: '' @ g2 @ '' characters'' @ post)"
    unfolding sizePattern_run by (rule impI) (rule search_runThen_sound)
  have t: "search typePattern out = Some g3 \<longrightarrow>
      g3 \<noteq> [] \<and> (\<forall>c\<in>set g3. isWord c)
      \<and> (\<exists>pre post. out = pre @ ''Project type: '' @ g3 @ post)"
    unfolding typePattern_run by (rule impI) (rule search_run_sound)
  have cd: "g \<noteq> [] \<and> (\<forall>c\<in>set g. isDigit c) \<longrightarrow>
        search filesPattern (pre @ ''Files processed: '' @ g @ post) \<noteq> None
        \<and> search sizePattern (pre @ ''Total size: '' @ g @ '' characters'' @ post) \<noteq> None"
  proof (intro impI conjI)
    assume g: "g \<noteq> [] \<and> (\<forall>c\<in>set g. isDigit c)"
    then have g1: "g \<noteq> []" and g2: "\<forall>c\<in>set g. isDigit c" by simp_all
    show "search filesPattern (pre @ ''Files processed: '' @ g @ post) \<noteq> None"
      unfolding filesPattern_run by (rule search_run_complete [OF g1 g2])
    show "search sizePattern (pre @ ''Total size: '' @ g @ '' characters'' @ post) \<noteq> None"
      unfolding sizePattern_run
      by (rule search_runThen_complete [OF g1 g2 space_not_digit(2) space_not_digit(1)])
  qed
  have cw: "g \<noteq> [] \<and> (\<forall>c\<in>set g. isWord c) \<longrightarrow>
        search typePattern (pre @ ''Project type: '' @ g @ post) \<noteq> None"
  proof
    assume g: "g \<noteq> [] \<and> (\<forall>c\<in>set g. isWord c)"
    then have g1: "g \<noteq> []" and g2: "\<forall>c\<in>set g. isWord c" by simp_all
    show "search typePattern (pre @ ''Project type: '' @ g @ post) \<noteq> None"
      unfolding typePattern_run by (rule search_run_complete [OF g1 g2])
  qed
  have m: "summaryMessage out =
        ''Files copied to clipboard! (''
        @ (case search filesPattern out of Some n \<Rightarrow> n | None \<Rightarrow> ''multiple'') @ '' files, ''
        @ (case search sizePattern out of Some n \<Rightarrow> n | None \<Rightarrow> ''unknown'') @ '' characters, ''
        @ (case search typePattern out of Some l \<Rightarrow> l | None \<Rightarrow> ''unknown'') @ '' project)''"
    by (simp only: summaryMessage_def filesCount_def charCount_def projectType_def)
  from f s t cd cw m show ?thesis by (intro conjI)
qed

theorem summary_patterns_witness:
  "search filesPattern ''Copied. Files processed: 12, Total size: 3456 characters'' = Some ''12''
   \<and> list_all isDigit ''12''
   \<and> (\<exists>pre post. ''Copied. Files processed: 12, Total size: 3456 characters''
          = pre @ ''Files processed: '' @ ''12'' @ post)"
proof -
  let ?out = "''Copied. Files processed: 12, Total size: 3456 characters''"
  have f: "search filesPattern ?out = Some ''12''" by code_simp
  from summary_patterns [of ?out "''12''" "[]" "[]" "[]" "[]" "[]"]
  have "search filesPattern ?out = Some ''12'' \<longrightarrow>
      ''12'' \<noteq> [] \<and> (\<forall>c\<in>set ''12''. isDigit c)
      \<and> (\<exists>pre post. ?out = pre @ ''Files processed: '' @ ''12'' @ post)"
    by (rule conjunct1)
  note c = mp [OF this f]
  have d: "list_all isDigit ''12''"
    using conjunct1 [OF conjunct2 [OF c]] by (simp only: list_all_iff)
  show ?thesis by (rule conjI [OF f conjI [OF d conjunct2 [OF conjunct2 [OF c]]]])
qed

text \<open>
  C9. When standard output holds no occurrence of a pattern, the notification takes the
  placeholder of that pattern: \<^verbatim>\<open>multiple\<close> for the number of files, \<^verbatim>\<open>unknown\<close> for the
  number of characters, \<^verbatim>\<open>unknown\<close> for the project type. The functions are total, so
  nothing fails; with no match at all the notification is the fixed text of the last
  conjunct.
\<close>

theorem summary_fallbacks:
  "((\<nexists>pre g post. out = pre @ ''Files processed: '' @ g @ post
        \<and> g \<noteq> [] \<and> (\<forall>c\<in>set g. isDigit c))
      \<longrightarrow> filesCount out = ''multiple'')
   \<and> ((\<nexists>pre g post. out = pre @ ''Total size: '' @ g @ '' characters'' @ post
        \<and> g \<noteq> [] \<and> (\<forall>c\<in>set g. isDigit c))
      \<longrightarrow> charCount out = ''unknown'')
   \<and> ((\<nexists>pre g post. out = pre @ ''Project type: '' @ g @ post
        \<and> g \<noteq> [] \<and> (\<forall>c\<in>set g. isWord c))
      \<longrightarrow> projectType out = ''unknown'')
   \<and> (search filesPattern out = None \<and> search sizePattern out = None
        \<and> search typePattern out = None
      \<longrightarrow> summaryMessage out
            = ''Files copied to clipboard! (multiple files, unknown characters, unknown project)'')"
proof -
  have none: "search pat out = None"
    if "\<And>g. search pat out = Some g \<Longrightarrow> False" for pat :: "string \<Rightarrow> string option"
    using that by (cases "search pat out") auto
  have f: "(\<nexists>pre g post. out = pre @ ''Files processed: '' @ g @ post
        \<and> g \<noteq> [] \<and> (\<forall>c\<in>set g. isDigit c))
      \<longrightarrow> filesCount out = ''multiple''"
  proof
    assume no: "\<nexists>pre g post. out = pre @ ''Files processed: '' @ g @ post
        \<and> g \<noteq> [] \<and> (\<forall>c\<in>set g. isDigit c)"
    have "search filesPattern out = None"
    proof (rule none)
      fix g assume "search filesPattern out = Some g"
      from search_run_sound [OF this [unfolded filesPattern_run]] no show False by metis
    qed
    then show "filesCount out = ''multiple''" by (simp only: filesCount_def option.case)
  qed
  have s: "(\<nexists>pre g post. out = pre @ ''Total size: '' @ g @ '' characters'' @ post
        \<and> g \<noteq> [] \<and> (\<forall>c\<in>set g. isDigit c))
      \<longrightarrow> charCount out = ''unknown''"
  proof
    assume no: "\<nexists>pre g post. out = pre @ ''Total size: '' @ g @ '' characters'' @ post
        \<and> g \<noteq> [] \<and> (\<forall>c\<in>set g. isDigit c)"
    have "search sizePattern out = None"
    proof (rule none)
      fix g assume "search sizePattern out = Some g"
      from search_runThen_sound [OF this [unfolded sizePattern_run]] no show False by metis
    qed
    then show "charCount out = ''unknown''" by (simp only: charCount_def option.case)
  qed
  have t: "(\<nexists>pre g post. out = pre @ ''Project type: '' @ g @ post
        \<and> g \<noteq> [] \<and> (\<forall>c\<in>set g. isWord c))
      \<longrightarrow> projectType out = ''unknown''"
  proof
    assume no: "\<nexists>pre g post. out = pre @ ''Project type: '' @ g @ post
        \<and> g \<noteq> [] \<and> (\<forall>c\<in>set g. isWord c)"
    have "search typePattern out = None"
    proof (rule none)
      fix g assume "search typePattern out = Some g"
      from search_run_sound [OF this [unfolded typePattern_run]] no show False by metis
    qed
    then show "projectType out = ''unknown''" by (simp only: projectType_def option.case)
  qed
  have m: "search filesPattern out = None \<and> search sizePattern out = None
        \<and> search typePattern out = None
      \<longrightarrow> summaryMessage out
            = ''Files copied to clipboard! (multiple files, unknown characters, unknown project)''"
    by (simp add: summaryMessage_def filesCount_def charCount_def projectType_def)
  from f s t m show ?thesis by (intro conjI)
qed

theorem summary_fallbacks_witness:
  "(\<nexists>pre g post. ''done'' = pre @ ''Files processed: '' @ g @ post
        \<and> g \<noteq> [] \<and> (\<forall>c\<in>set g. isDigit c))
   \<and> filesCount ''done'' = ''multiple''"
proof -
  have no: "\<nexists>pre g post. ''done'' = pre @ ''Files processed: '' @ g @ post
        \<and> g \<noteq> [] \<and> (\<forall>c\<in>set g. isDigit c)"
  proof
    assume "\<exists>pre g post. ''done'' = pre @ ''Files processed: '' @ g @ post
        \<and> g \<noteq> [] \<and> (\<forall>c\<in>set g. isDigit c)"
    then obtain pre g post where "''done'' = pre @ ''Files processed: '' @ g @ post" by metis
    then have "length ''done'' = length (pre @ ''Files processed: '' @ g @ post)" by (rule arg_cong)
    then show False by simp
  qed
  from summary_fallbacks [of "''done''"]
  have "(\<nexists>pre g post. ''done'' = pre @ ''Files processed: '' @ g @ post
        \<and> g \<noteq> [] \<and> (\<forall>c\<in>set g. isDigit c))
      \<longrightarrow> filesCount ''done'' = ''multiple''"
    by (rule conjunct1)
  note c = mp [OF this no]
  show ?thesis by (rule conjI [OF no c])
qed

section \<open>Termination of the walk\<close>

lemma walkUp_returns:
  fixes m :: "string \<Rightarrow> nat"
  assumes dec: "\<And>d. d \<noteq> [] \<Longrightarrow> dirname path d \<noteq> d \<Longrightarrow> m (dirname path d) < m d"
  shows "\<exists>st'. walkUp path fs d st = Some st'
            \<and> length (visited (snd st')) \<le> length (visited (snd st)) + Suc (m d)"
proof (induction "m d" arbitrary: d st rule: less_induct)
  case less
  show ?case
  proof (cases "d = []")
    case True
    then show ?thesis by (simp add: walkUp_unfold_empty)
  next
    case False
    show ?thesis
    proof (cases "foundBoth (fst (checkDir path fs d st)) \<or> dirname path d = d")
      case True
      from walkUp_unfold_stop [OF False True] show ?thesis by (simp add: visited_checkDir)
    next
      case go: False
      then have g1: "\<not> foundBoth (fst (checkDir path fs d st))" and g2: "dirname path d \<noteq> d"
        by simp_all
      from dec [OF False g2] have lt: "m (dirname path d) < m d" .
      from less [OF lt, of "checkDir path fs d st"] obtain st'
        where r: "walkUp path fs (dirname path d) (checkDir path fs d st) = Some st'"
          and b: "length (visited (snd st'))
                    \<le> length (visited (snd (checkDir path fs d st))) + Suc (m (dirname path d))"
        by blast
      from r walkUp_unfold_step [OF False g1 g2] have "walkUp path fs d st = Some st'" by simp
      moreover from b lt have "length (visited (snd st')) \<le> length (visited (snd st)) + Suc (m d)"
        by (simp add: visited_checkDir)
      ultimately show ?thesis by blast
    qed
  qed
qed

lemma forPaths_returns:
  fixes m :: "string \<Rightarrow> nat"
  assumes dec: "\<And>d. d \<noteq> [] \<Longrightarrow> dirname path d \<noteq> d \<Longrightarrow> m (dirname path d) < m d"
  shows "\<exists>out. forPaths path fs paths st = Some out"
proof (induction paths arbitrary: st)
  case Nil
  then show ?case by (cases st) simp
next
  case (Cons filePath rest)
  obtain result calls where st: "st = (result, calls)" by (cases st)
  show ?case
  proof (cases "statSync fs filePath")
    case None
    then show ?thesis by (simp add: st)
  next
    case (Some s)
    from walkUp_returns [where m = m and path = path and fs = fs
        and d = "startDir path s filePath" and st = "(result, calls @ [StatSync filePath])", OF dec]
    obtain r c where w: "walkUp path fs (startDir path s filePath) (result, calls @ [StatSync filePath])
                       = Some (r, c)"
      by (metis surj_pair)
    show ?thesis
    proof (cases "foundBoth r")
      case True
      with Some w show ?thesis by (simp add: st)
    next
      case False
      with Some w Cons.IH [of "(r, c)"] show ?thesis by (simp add: st)
    qed
  qed
qed

text \<open>
  C8. The walk terminates. What it needs of \<^verbatim>\<open>path.dirname\<close> is that some measure \<open>m\<close>
  decreases whenever the parent differs from the directory (for POSIX paths \<open>depth\<close>
  does, \<open>posix_dirname_decreases\<close>). Then the \<^verbatim>\<open>while\<close> loop returns from every
  directory and state after visiting at most \<open>m d + 1\<close> directories, it returns at once
  from a directory that is its own parent, and \<^verbatim>\<open>detectProjectFiles\<close> returns (a result
  or the error of \<^verbatim>\<open>statSync\<close>) for every list of input paths.
\<close>

theorem walk_terminates:
  fixes m :: "string \<Rightarrow> nat"
  assumes "\<And>d. d \<noteq> [] \<Longrightarrow> dirname path d \<noteq> d \<Longrightarrow> m (dirname path d) < m d"
  shows "(\<exists>st'. walkUp path fs d st = Some st'
            \<and> length (visited (snd st')) \<le> length (visited (snd st)) + Suc (m d))
       \<and> (d \<noteq> [] \<and> dirname path d = d \<longrightarrow> walkUp path fs d st = Some (checkDir path fs d st))
       \<and> (\<exists>out. detectProjectFiles path fs paths = Some out)"
proof (intro conjI impI)
  show "\<exists>st'. walkUp path fs d st = Some st'
            \<and> length (visited (snd st')) \<le> length (visited (snd st)) + Suc (m d)"
    by (rule walkUp_returns [where m = m and path = path, OF assms])
  show "walkUp path fs d st = Some (checkDir path fs d st)" if "d \<noteq> [] \<and> dirname path d = d"
    using that by (intro walkUp_unfold_stop) simp_all
  show "\<exists>out. detectProjectFiles path fs paths = Some out"
    unfolding detectProjectFiles_def
    by (rule forPaths_returns [where m = m and path = path, OF assms])
qed

theorem walk_terminates_witness:
  "(\<exists>st'. walkUp posix (snapshot [''/p/Cargo.toml''] [''/'', ''/p'', ''/p/src'']) ''/p/src''
              (\<lparr>cargoToml = None, pythonProject = None\<rparr>, []) = Some st'
           \<and> length (visited (snd st')) \<le> 7)
   \<and> (\<exists>out. detectProjectFiles posix (snapshot [''/p/Cargo.toml''] [''/'', ''/p'', ''/p/src''])
              [''/p/src'', ''/p/Cargo.toml''] = Some out)"
proof -
  have dec: "\<And>d. d \<noteq> [] \<Longrightarrow> dirname posix d \<noteq> d \<Longrightarrow> depth (dirname posix d) < depth d"
    unfolding posix_sel by (rule posix_dirname_decreases)
  have m: "length (visited (snd (\<lparr>cargoToml = None, pythonProject = None\<rparr>, [] :: fs_call list)))
             + Suc (depth ''/p/src'') = 7"
    by (simp add: visited_def depth_def)
  from walk_terminates [where path = posix and m = depth and d = "''/p/src''"
      and fs = "snapshot [''/p/Cargo.toml''] [''/'', ''/p'', ''/p/src'']"
      and st = "(\<lparr>cargoToml = None, pythonProject = None\<rparr>, [])"
      and paths = "[''/p/src'', ''/p/Cargo.toml'']", OF dec]
  show ?thesis unfolding m by blast
qed

section \<open>One manifest for each kind\<close>




lemma find_append_case:
  "find P (xs @ ys) = (case find P xs of Some x \<Rightarrow> Some x | None \<Rightarrow> find P ys)"
  by (induction xs) auto

lemma firstHit_append:
  "firstHit path fs names (xs @ ys)
     = (case firstHit path fs names xs of Some p \<Rightarrow> Some p | None \<Rightarrow> firstHit path fs names ys)"
  by (simp add: firstHit_def probes_append find_append_case split: option.splits)

lemma firstHit_truthy:
  assumes "\<And>d f. join path d f \<noteq> []"
  shows "truthy (firstHit path fs names calls) \<longleftrightarrow> firstHit path fs names calls \<noteq> None"
  using assms by (auto simp: firstHit_def truthy_def split: option.splits)

lemma firstHit_simps:
  "firstHit path fs names [] = None"
  "firstHit path fs names (StatSync p # cs) = firstHit path fs names cs"
  "firstHit path fs names (ExistsSync d f # cs) =
     (if f \<in> set names \<and> existsSync fs (join path d f) then Some (join path d f)
      else firstHit path fs names cs)"
  by (simp_all add: firstHit_def)

lemma checkCargo_recorded:
  assumes J: "\<And>d f. join path d f \<noteq> []" and "recorded path fs st"
  shows "recorded path fs (checkCargo path fs d st)"
proof -
  obtain r c where st: "st = (r, c)" by (cases st)
  from assms(2) have r: "cargoToml r = firstHit path fs [''Cargo.toml''] c"
    "pythonProject r = firstHit path fs pythonNames c" by (simp_all add: recorded_def st)
  have t: "truthy (cargoToml r) \<longleftrightarrow> firstHit path fs [''Cargo.toml''] c \<noteq> None"
    unfolding r by (rule firstHit_truthy [OF J])
  show ?thesis
    unfolding st recorded_def checkCargo_def
    using r t by (auto simp: Let_def firstHit_append firstHit_simps pythonNames_def
        split: option.splits)
qed

lemma checkPython_recorded:
  assumes J: "\<And>d f. join path d f \<noteq> []" and "recorded path fs st"
  shows "recorded path fs (checkPython path fs d st)"
proof -
  obtain r c where st: "st = (r, c)" by (cases st)
  from assms(2) have r: "cargoToml r = firstHit path fs [''Cargo.toml''] c"
    "pythonProject r = firstHit path fs pythonNames c" by (simp_all add: recorded_def st)
  have t: "truthy (pythonProject r) \<longleftrightarrow> firstHit path fs pythonNames c \<noteq> None"
    unfolding r by (rule firstHit_truthy [OF J])
  show ?thesis
    unfolding st recorded_def checkPython_def
    using r t by (auto simp: Let_def firstHit_append firstHit_simps pythonNames_def
        split: option.splits)
qed

lemma walkUp_recorded:
  assumes J: "\<And>d f. join path d f \<noteq> []"
    and "walkUp path fs d st = Some st'" "recorded path fs st"
  shows "recorded path fs st'"
  using assms(2,3)
proof (induction rule: walkUp_induct)
  case (empty st)
  then show ?case by simp
next
  case (stop d st)
  then show ?case by (simp add: checkDir_def checkPython_recorded [OF J] checkCargo_recorded [OF J])
next
  case (step d st st')
  then show ?case by (simp add: checkDir_def checkPython_recorded [OF J] checkCargo_recorded [OF J])
qed

lemma recorded_StatSync:
  "recorded path fs (r, c) \<Longrightarrow> recorded path fs (r, c @ [StatSync p])"
  by (simp add: recorded_def firstHit_def probes_append)

lemma forPaths_recorded:
  assumes J: "\<And>d f. join path d f \<noteq> []"
    and "forPaths path fs paths (result, calls) = Some (Inr result', calls')"
    and "recorded path fs (result, calls)"
  shows "recorded path fs (result', calls')"
  using assms(2,3)
proof (induction paths arbitrary: result calls)
  case Nil
  then show ?case by simp
next
  case (Cons filePath rest)
  from Cons.prems obtain s where s: "statSync fs filePath = Some s"
    by (cases "statSync fs filePath") (auto simp: Let_def)
  from Cons.prems s obtain r c
    where w: "walkUp path fs (startDir path s filePath) (result, calls @ [StatSync filePath])
                = Some (r, c)"
    by (auto simp: Let_def split: option.splits)
  have rc: "recorded path fs (r, c)"
    by (rule walkUp_recorded [OF J w recorded_StatSync [OF Cons.prems(2)]])
  show ?case
  proof (cases "foundBoth r")
    case True
    with Cons.prems s w have "result' = r" "calls' = c" by (simp_all add: Let_def)
    with rc show ?thesis by simp
  next
    case False
    with Cons.prems s w have "forPaths path fs rest (r, c) = Some (Inr result', calls')"
      by (simp add: Let_def)
    from Cons.IH [OF this rc] show ?thesis .
  qed
qed



section \<open>What the walk does in one directory\<close>






section \<open>Stopping early\<close>




section \<open>An input path that does not exist\<close>

lemma forPaths_append:
  assumes "forPaths path fs pre st = Some (Inr r, c)" "\<not> foundBoth r"
  shows "forPaths path fs (pre @ later) st = forPaths path fs later (r, c)"
  using assms
proof (induction pre arbitrary: st)
  case Nil
  then show ?case by (cases st) simp
next
  case (Cons filePath rest)
  obtain result calls where st: "st = (result, calls)" by (cases st)
  from Cons.prems obtain s where s: "statSync fs filePath = Some s"
    by (cases "statSync fs filePath") (auto simp: st Let_def)
  from Cons.prems s obtain r1 c1
    where w: "walkUp path fs (startDir path s filePath) (result, calls @ [StatSync filePath])
                = Some (r1, c1)"
    by (auto simp: st Let_def split: option.splits)
  show ?case
  proof (cases "foundBoth r1")
    case True
    with Cons.prems s w show ?thesis by (simp add: st Let_def)
  next
    case False
    with Cons.prems s w have "forPaths path fs rest (r1, c1) = Some (Inr r, c)"
      by (simp add: st Let_def)
    from Cons.IH [OF this Cons.prems(2)] False s w show ?thesis by (simp add: st Let_def)
  qed
qed

text \<open>
  C5, as the claim states it, fails: with the selection \<^verbatim>\<open>/p/gone.rs\<close>, \<^verbatim>\<open>/p/src\<close>, of
  which the second exists, \<^verbatim>\<open>fs.statSync\<close> throws on the first, the \<^verbatim>\<open>catch\<close> of the
  handler shows the error, and nothing is done for \<^verbatim>\<open>/p/src\<close>: no command is executed.
\<close>

theorem missing_path_is_fatal_counterexample:
  "statSync (snapshot [''/ext/bin/llm-cocop'', ''/p/Cargo.toml''] [''/'', ''/p'', ''/p/src''])
       ''/p/src'' = Some \<lparr>isFile = False\<rparr>
   \<and> copyProject posix
       (snapshot [''/ext/bin/llm-cocop'', ''/p/Cargo.toml''] [''/'', ''/p'', ''/p/src''])
       ''/ext/bin/llm-cocop'' [''/p/gone.rs'', ''/p/src'']
     = Some (ShowErrorMessage
         (''Error: ENOENT: no such file or directory, stat '' @ [CHR 0x27] @ ''/p/gone.rs''
            @ [CHR 0x27]))"
  by code_simp

text \<open>
  C5, amended. When the loop reaches an input path that does not exist (the paths before
  it exist and have not yielded a manifest of every kind), \<^verbatim>\<open>detectProjectFiles\<close> throws
  the error of \<^verbatim>\<open>fs.statSync\<close> for that path, whatever paths follow it, and the handler
  shows \<^verbatim>\<open>Error: <message>\<close> instead of executing the command.
\<close>

theorem missing_path_aborts:
  assumes "forPaths path fs pre (result, calls) = Some (Inr r, c)"
    and "\<not> foundBoth r"
    and "statSync fs filePath = None"
  shows "forPaths path fs (pre @ filePath # rest) (result, calls)
           = Some (Inl (ENOENT filePath), c @ [StatSync filePath])
       \<and> (result = \<lparr>cargoToml = None, pythonProject = None\<rparr> \<and> calls = []
            \<and> existsSync fs binPath
          \<longrightarrow> copyProject path fs binPath (pre @ filePath # rest)
                = Some (ShowErrorMessage (''Error: '' @ message (ENOENT filePath))))"
proof (intro conjI impI)
  show run: "forPaths path fs (pre @ filePath # rest) (result, calls)
           = Some (Inl (ENOENT filePath), c @ [StatSync filePath])"
    using forPaths_append [OF assms(1,2)] assms(3) by (simp add: Let_def)
  assume "result = \<lparr>cargoToml = None, pythonProject = None\<rparr> \<and> calls = [] \<and> existsSync fs binPath"
  with run show "copyProject path fs binPath (pre @ filePath # rest)
                = Some (ShowErrorMessage (''Error: '' @ message (ENOENT filePath)))"
    by (simp add: copyProject_def detectProjectFiles_def)
qed

theorem missing_path_aborts_witness:
  "forPaths posix (snapshot [''/ext/bin/llm-cocop'', ''/p/Cargo.toml''] [''/'', ''/p'', ''/p/src''])
       [''/p/src''] (\<lparr>cargoToml = None, pythonProject = None\<rparr>, [])
     = Some (Inr \<lparr>cargoToml = Some ''/p/Cargo.toml'', pythonProject = None\<rparr>,
         [StatSync ''/p/src'',
          ExistsSync ''/p/src'' ''Cargo.toml'', ExistsSync ''/p/src'' ''pyproject.toml'',
          ExistsSync ''/p/src'' ''setup.py'', ExistsSync ''/p/src'' ''requirements.txt'',
          ExistsSync ''/p'' ''Cargo.toml'', ExistsSync ''/p'' ''pyproject.toml'',
          ExistsSync ''/p'' ''setup.py'', ExistsSync ''/p'' ''requirements.txt'',
          ExistsSync ''/'' ''Cargo.toml'', ExistsSync ''/'' ''pyproject.toml'',
          ExistsSync ''/'' ''setup.py'', ExistsSync ''/'' ''requirements.txt''])
   \<and> \<not> foundBoth \<lparr>cargoToml = Some ''/p/Cargo.toml'', pythonProject = None\<rparr>
   \<and> statSync (snapshot [''/ext/bin/llm-cocop'', ''/p/Cargo.toml''] [''/'', ''/p'', ''/p/src''])
        ''/p/gone.rs'' = None
   \<and> existsSync (snapshot [''/ext/bin/llm-cocop'', ''/p/Cargo.toml''] [''/'', ''/p'', ''/p/src''])
        ''/ext/bin/llm-cocop''
   \<and> copyProject posix
       (snapshot [''/ext/bin/llm-cocop'', ''/p/Cargo.toml''] [''/'', ''/p'', ''/p/src''])
       ''/ext/bin/llm-cocop'' ([''/p/src''] @ ''/p/gone.rs'' # [''/p/Cargo.toml''])
     = Some (ShowErrorMessage (''Error: '' @ message (ENOENT ''/p/gone.rs'')))"
proof -
  let ?fs = "snapshot [''/ext/bin/llm-cocop'', ''/p/Cargo.toml''] [''/'', ''/p'', ''/p/src'']"
  let ?r = "\<lparr>cargoToml = Some ''/p/Cargo.toml'', pythonProject = None\<rparr>"
  let ?log = "[StatSync ''/p/src'',
          ExistsSync ''/p/src'' ''Cargo.toml'', ExistsSync ''/p/src'' ''pyproject.toml'',
          ExistsSync ''/p/src'' ''setup.py'', ExistsSync ''/p/src'' ''requirements.txt'',
          ExistsSync ''/p'' ''Cargo.toml'', ExistsSync ''/p'' ''pyproject.toml'',
          ExistsSync ''/p'' ''setup.py'', ExistsSync ''/p'' ''requirements.txt'',
          ExistsSync ''/'' ''Cargo.toml'', ExistsSync ''/'' ''pyproject.toml'',
          ExistsSync ''/'' ''setup.py'', ExistsSync ''/'' ''requirements.txt'']"
  have run: "forPaths posix ?fs [''/p/src''] (\<lparr>cargoToml = None, pythonProject = None\<rparr>, [])
               = Some (Inr ?r, ?log)"
    by code_simp
  have nb: "\<not> foundBoth ?r" by (simp add: foundBoth_def truthy_def)
  have gone: "statSync ?fs ''/p/gone.rs'' = None" by (simp add: snapshot_def)
  have bin: "existsSync ?fs ''/ext/bin/llm-cocop''" by (simp add: snapshot_def)
  from missing_path_aborts [OF run nb gone, of "[''/p/Cargo.toml'']" "''/ext/bin/llm-cocop''"] bin
  have "copyProject posix ?fs ''/ext/bin/llm-cocop'' ([''/p/src''] @ ''/p/gone.rs'' # [''/p/Cargo.toml''])
     = Some (ShowErrorMessage (''Error: '' @ message (ENOENT ''/p/gone.rs'')))"
    by (simp only: simp_thms)
  with run nb gone bin show ?thesis by (intro conjI)
qed

section \<open>The order of the walk\<close>




lemma forPaths_calls:
  assumes "forPaths path fs paths st = Some (out, calls')"
  shows "\<exists>later. calls' = snd st @ later"
  using assms
proof (induction paths arbitrary: st)
  case Nil
  then show ?case by (cases st) auto
next
  case (Cons filePath rest)
  obtain result calls where st: "st = (result, calls)" by (cases st)
  show ?case
  proof (cases "statSync fs filePath")
    case None
    with Cons.prems show ?thesis by (auto simp: st Let_def)
  next
    case (Some s)
    with Cons.prems obtain r c
      where w: "walkUp path fs (startDir path s filePath) (result, calls @ [StatSync filePath])
                  = Some (r, c)"
      by (auto simp: st Let_def split: option.splits)
    from walkUp_calls [OF w] obtain w1 where c: "c = calls @ [StatSync filePath] @ w1" by auto
    show ?thesis
    proof (cases "foundBoth r")
      case True
      with Cons.prems Some w have "calls' = c" by (simp add: st Let_def)
      with c show ?thesis by (simp add: st)
    next
      case False
      with Cons.prems Some w have "forPaths path fs rest (r, c) = Some (out, calls')"
        by (simp add: st Let_def)
      from Cons.IH [OF this] c show ?thesis by (auto simp: st)
    qed
  qed
qed



section \<open>Determinism\<close>

lemma checkDir_same:
  assumes "\<forall>c\<in>set (snd (checkDir path fs d st)). sameAnswer path fs fs' c"
  shows "checkDir path fs' d st = checkDir path fs d st"
proof -
  obtain r c where st: "st = (r, c)" by (cases st)
  from assms have a: "existsSync fs (join path d ''Cargo.toml'')
                    = existsSync fs' (join path d ''Cargo.toml'')"
    by (simp add: st checkDir_def checkCargo_def checkPython_def Let_def split: if_splits)
  then have cg: "checkCargo path fs' d (r, c) = checkCargo path fs d (r, c)"
    by (simp add: checkCargo_def Let_def)
  obtain r1 c1 where c1: "checkCargo path fs d (r, c) = (r1, c1)" by (cases "checkCargo path fs d (r, c)")
  from assms have b: "\<forall>c\<in>set (snd (checkPython path fs d (r1, c1))). sameAnswer path fs fs' c"
    by (simp add: st checkDir_def c1)
  have "checkPython path fs' d (r1, c1) = checkPython path fs d (r1, c1)"
    using b by (simp add: checkPython_def Let_def split: if_splits)
  then show ?thesis by (simp add: st checkDir_def cg c1)
qed

lemma walkUp_same:
  assumes "walkUp path fs d st = Some st'"
    and "\<forall>c\<in>set (snd st'). sameAnswer path fs fs' c"
  shows "walkUp path fs' d st = Some st'"
  using assms
proof (induction rule: walkUp_induct)
  case (empty st)
  then show ?case by (simp add: walkUp_unfold_empty)
next
  case (stop d st)
  from checkDir_same [OF stop(3)] have e: "checkDir path fs' d st = checkDir path fs d st" .
  with stop(2) have "foundBoth (fst (checkDir path fs' d st)) \<or> dirname path d = d" by simp
  from walkUp_unfold_stop [OF stop(1) this] e show ?case by simp
next
  case (step d st st')
  from walkUp_calls [OF step(4)] step.prems
  have "\<forall>c\<in>set (snd (checkDir path fs d st)). sameAnswer path fs fs' c" by auto
  from checkDir_same [OF this] have e: "checkDir path fs' d st = checkDir path fs d st" .
  with step(2) have nf: "\<not> foundBoth (fst (checkDir path fs' d st))" by simp
  from walkUp_unfold_step [OF step(1) nf step(3)] e step.IH [OF step.prems]
  show ?case by simp
qed

lemma forPaths_same:
  assumes "forPaths path fs paths st = Some (out, calls')"
    and "\<forall>c\<in>set calls'. sameAnswer path fs fs' c"
  shows "forPaths path fs' paths st = Some (out, calls')"
  using assms
proof (induction paths arbitrary: st)
  case Nil
  then show ?case by (cases st) auto
next
  case (Cons filePath rest)
  obtain result calls where st: "st = (result, calls)" by (cases st)
  from forPaths_calls [OF Cons.prems(1)] obtain later where l: "calls' = snd st @ later" by blast
  show ?case
  proof (cases "statSync fs filePath")
    case None
    with Cons.prems(1) have c: "calls' = calls @ [StatSync filePath]" "out = Inl (ENOENT filePath)"
      by (auto simp: st Let_def)
    with Cons.prems(2) have "statSync fs' filePath = statSync fs filePath" by simp
    with None c show ?thesis by (simp add: st Let_def)
  next
    case (Some s)
    with Cons.prems(1) obtain r c
      where w: "walkUp path fs (startDir path s filePath) (result, calls @ [StatSync filePath])
                  = Some (r, c)"
      by (auto simp: st Let_def split: option.splits)
    from walkUp_calls [OF w] obtain w1 where c: "c = calls @ [StatSync filePath] @ w1" by auto
    have sub: "set c \<subseteq> set calls'"
    proof (cases "foundBoth r")
      case True
      with Cons.prems(1) Some w have "calls' = c" by (simp add: st Let_def)
      then show ?thesis by simp
    next
      case False
      with Cons.prems(1) Some w have "forPaths path fs rest (r, c) = Some (out, calls')"
        by (simp add: st Let_def)
      from forPaths_calls [OF this] show ?thesis by auto
    qed
    with Cons.prems(2) have agree: "\<forall>x\<in>set c. sameAnswer path fs fs' x" by auto
    with c have "statSync fs' filePath = statSync fs filePath" by simp
    with Some have s': "statSync fs' filePath = Some s" by simp
    from walkUp_same [OF w] agree
    have w': "walkUp path fs' (startDir path s filePath) (result, calls @ [StatSync filePath])
                = Some (r, c)" by simp
    show ?thesis
    proof (cases "foundBoth r")
      case True
      with Cons.prems(1) Some w s' w' show ?thesis by (simp add: st Let_def)
    next
      case False
      with Cons.prems(1) Some w have "forPaths path fs rest (r, c) = Some (out, calls')"
        by (simp add: st Let_def)
      from Cons.IH [OF this Cons.prems(2)] False s' w' show ?thesis by (simp add: st Let_def)
    qed
  qed
qed

text \<open>
  C10. Detection is a function of the input paths and of the answers of the filesystem:
  a second run on the same ordered list of paths, in which every call the first run made
  gets the same answer, makes the same calls and returns the same Rust manifest path and
  the same Python project file path. Whatever else differs between the two snapshots
  does not matter.
\<close>

theorem detection_is_deterministic:
  assumes "detectProjectFiles path fs paths = Some (out, calls)"
    and "\<forall>c\<in>set calls. sameAnswer path fs fs' c"
  shows "detectProjectFiles path fs' paths = Some (out, calls)"
  using assms unfolding detectProjectFiles_def by (rule forPaths_same)

theorem detection_is_deterministic_witness:
  "detectProjectFiles posix (snapshot [''/p/Cargo.toml'', ''/p/setup.py''] [''/'', ''/p''])
       [''/p'']
     = Some (Inr \<lparr>cargoToml = Some ''/p/Cargo.toml'', pythonProject = Some ''/p/setup.py''\<rparr>,
         [StatSync ''/p'', ExistsSync ''/p'' ''Cargo.toml'', ExistsSync ''/p'' ''pyproject.toml'',
          ExistsSync ''/p'' ''setup.py''])
   \<and> list_all
        (sameAnswer posix (snapshot [''/p/Cargo.toml'', ''/p/setup.py''] [''/'', ''/p''])
           (snapshot [''/p/Cargo.toml'', ''/p/setup.py'', ''/p/requirements.txt'', ''/Cargo.toml'']
              [''/'', ''/p'', ''/q'']))
        [StatSync ''/p'', ExistsSync ''/p'' ''Cargo.toml'',
         ExistsSync ''/p'' ''pyproject.toml'', ExistsSync ''/p'' ''setup.py'']
   \<and> detectProjectFiles posix
       (snapshot [''/p/Cargo.toml'', ''/p/setup.py'', ''/p/requirements.txt'', ''/Cargo.toml'']
          [''/'', ''/p'', ''/q''])
       [''/p'']
     = Some (Inr \<lparr>cargoToml = Some ''/p/Cargo.toml'', pythonProject = Some ''/p/setup.py''\<rparr>,
         [StatSync ''/p'', ExistsSync ''/p'' ''Cargo.toml'', ExistsSync ''/p'' ''pyproject.toml'',
          ExistsSync ''/p'' ''setup.py''])"
proof -
  let ?fs = "snapshot [''/p/Cargo.toml'', ''/p/setup.py''] [''/'', ''/p'']"
  let ?fs' = "snapshot [''/p/Cargo.toml'', ''/p/setup.py'', ''/p/requirements.txt'', ''/Cargo.toml'']
              [''/'', ''/p'', ''/q'']"
  let ?out = "Inr \<lparr>cargoToml = Some ''/p/Cargo.toml'', pythonProject = Some ''/p/setup.py''\<rparr>
                :: error + ProjectFiles"
  let ?log = "[StatSync ''/p'', ExistsSync ''/p'' ''Cargo.toml'', ExistsSync ''/p'' ''pyproject.toml'',
          ExistsSync ''/p'' ''setup.py'']"
  have run: "detectProjectFiles posix ?fs [''/p''] = Some (?out, ?log)" by code_simp
  have j: "join posix ''/p'' ''Cargo.toml'' = ''/p/Cargo.toml''"
    "join posix ''/p'' ''pyproject.toml'' = ''/p/pyproject.toml''"
    "join posix ''/p'' ''setup.py'' = ''/p/setup.py''"
    by code_simp+
  have same: "\<forall>c\<in>set ?log. sameAnswer posix ?fs ?fs' c"
    by (simp add: j) (simp add: snapshot_def)
  from same have same': "list_all (sameAnswer posix ?fs ?fs') ?log"
    by (simp only: list_all_iff)
  from detection_is_deterministic [OF run same] run same' show ?thesis by (intro conjI)
qed

section \<open>The override arguments of the command line\<close>

lemma firstHit_not_empty:
  assumes "\<And>d f. join path d f \<noteq> []"
  shows "firstHit path fs names calls \<noteq> Some []"
  using assms by (auto simp: firstHit_def)

text \<open>
  C7. The command line is the selected paths, each between double quotes, followed by
  \<^verbatim>\<open>--cargo-toml "<path>"\<close> if and only if a Rust manifest was detected and its path is
  not one of the selected paths, then by \<^verbatim>\<open>--pyproject "<path>"\<close> if and only if a
  Python project file was detected and its path is not one of the selected paths. This is
  the command line the handler executes. (The source tests the detected path for
  truthiness; a detected path is never the empty string, since \<^verbatim>\<open>path.join\<close> does not
  return it.)
\<close>

theorem override_iff_not_selected:
  assumes "\<And>d f. join path d f \<noteq> []"
    and "detectProjectFiles path fs selectedPaths = Some (Inr projectFiles, log)"
  shows "commandArgs selectedPaths projectFiles =
           joinWith '' '' (map (\<lambda>p. dquote @ p @ dquote) selectedPaths)
           @ (case cargoToml projectFiles of
                None \<Rightarrow> []
              | Some c \<Rightarrow> if c \<in> set selectedPaths then []
                          else '' --cargo-toml '' @ dquote @ c @ dquote)
           @ (case pythonProject projectFiles of
                None \<Rightarrow> []
              | Some p \<Rightarrow> if p \<in> set selectedPaths then []
                          else '' --pyproject '' @ dquote @ p @ dquote)
       \<and> (selectedPaths \<noteq> [] \<and> existsSync fs binPath
            \<longrightarrow> copyProject path fs binPath selectedPaths
                  = Some (Exec (dquote @ binPath @ dquote @ '' ''
                                  @ commandArgs selectedPaths projectFiles)))"
proof
  from assms(2) have run: "forPaths path fs selectedPaths (\<lparr>cargoToml = None, pythonProject = None\<rparr>, [])
                    = Some (Inr projectFiles, log)"
    by (simp add: detectProjectFiles_def)
  have "recorded path fs (\<lparr>cargoToml = None, pythonProject = None\<rparr>, [])"
    by (simp add: recorded_def firstHit_simps)
  from forPaths_recorded [OF assms(1) run this]
  have "cargoToml projectFiles = firstHit path fs [''Cargo.toml''] log"
    and "pythonProject projectFiles = firstHit path fs pythonNames log"
    by (simp_all add: recorded_def)
  with firstHit_not_empty [OF assms(1)]
  have ne: "cargoToml projectFiles \<noteq> Some []" "pythonProject projectFiles \<noteq> Some []"
    by simp_all
  show "commandArgs selectedPaths projectFiles =
           joinWith '' '' (map (\<lambda>p. dquote @ p @ dquote) selectedPaths)
           @ (case cargoToml projectFiles of
                None \<Rightarrow> []
              | Some c \<Rightarrow> if c \<in> set selectedPaths then []
                          else '' --cargo-toml '' @ dquote @ c @ dquote)
           @ (case pythonProject projectFiles of
                None \<Rightarrow> []
              | Some p \<Rightarrow> if p \<in> set selectedPaths then []
                          else '' --pyproject '' @ dquote @ p @ dquote)"
    using ne
    by (auto simp add: commandArgs_def truthy_def includes_js_def str_def Let_def
        split: option.splits)
  show "selectedPaths \<noteq> [] \<and> existsSync fs binPath
            \<longrightarrow> copyProject path fs binPath selectedPaths
                  = Some (Exec (dquote @ binPath @ dquote @ '' ''
                                  @ commandArgs selectedPaths projectFiles))"
    using assms(2) by (simp add: copyProject_def command_def)
qed

theorem override_iff_not_selected_witness:
  "detectProjectFiles posix
       (snapshot [''/x/llm-cocop'', ''/p/Cargo.toml'', ''/p/setup.py''] [''/'', ''/p'', ''/p/src''])
       [''/p/src'', ''/p/setup.py'']
     = Some (Inr \<lparr>cargoToml = Some ''/p/Cargo.toml'', pythonProject = Some ''/p/setup.py''\<rparr>,
         [StatSync ''/p/src'',
          ExistsSync ''/p/src'' ''Cargo.toml'', ExistsSync ''/p/src'' ''pyproject.toml'',
          ExistsSync ''/p/src'' ''setup.py'', ExistsSync ''/p/src'' ''requirements.txt'',
          ExistsSync ''/p'' ''Cargo.toml'', ExistsSync ''/p'' ''pyproject.toml'',
          ExistsSync ''/p'' ''setup.py''])
   \<and> commandArgs [''/p/src'', ''/p/setup.py'']
       \<lparr>cargoToml = Some ''/p/Cargo.toml'', pythonProject = Some ''/p/setup.py''\<rparr>
     = dquote @ ''/p/src'' @ dquote @ '' '' @ dquote @ ''/p/setup.py'' @ dquote
         @ '' --cargo-toml '' @ dquote @ ''/p/Cargo.toml'' @ dquote
   \<and> copyProject posix
       (snapshot [''/x/llm-cocop'', ''/p/Cargo.toml'', ''/p/setup.py''] [''/'', ''/p'', ''/p/src''])
       ''/x/llm-cocop'' [''/p/src'', ''/p/setup.py'']
     = Some (Exec (dquote @ ''/x/llm-cocop'' @ dquote @ '' ''
          @ commandArgs [''/p/src'', ''/p/setup.py'']
              \<lparr>cargoToml = Some ''/p/Cargo.toml'', pythonProject = Some ''/p/setup.py''\<rparr>))"
proof -
  let ?fs = "snapshot [''/x/llm-cocop'', ''/p/Cargo.toml'', ''/p/setup.py''] [''/'', ''/p'', ''/p/src'']"
  let ?r = "\<lparr>cargoToml = Some ''/p/Cargo.toml'', pythonProject = Some ''/p/setup.py''\<rparr>"
  let ?log = "[StatSync ''/p/src'',
          ExistsSync ''/p/src'' ''Cargo.toml'', ExistsSync ''/p/src'' ''pyproject.toml'',
          ExistsSync ''/p/src'' ''setup.py'', ExistsSync ''/p/src'' ''requirements.txt'',
          ExistsSync ''/p'' ''Cargo.toml'', ExistsSync ''/p'' ''pyproject.toml'',
          ExistsSync ''/p'' ''setup.py'']"
  have J: "\<And>d f. join posix d f \<noteq> []"
    by (simp add: posix_sel posix_join_nonempty)
  have run: "detectProjectFiles posix ?fs [''/p/src'', ''/p/setup.py''] = Some (Inr ?r, ?log)"
    by code_simp
  have bin: "[''/p/src'', ''/p/setup.py''] \<noteq> [] \<and> existsSync ?fs ''/x/llm-cocop''"
    by (simp add: snapshot_def)
  note both = override_iff_not_selected [where path = posix and binPath = "''/x/llm-cocop''",
      OF J run]
  from conjunct1 [OF both]
  have args: "commandArgs [''/p/src'', ''/p/setup.py''] ?r
     = dquote @ ''/p/src'' @ dquote @ '' '' @ dquote @ ''/p/setup.py'' @ dquote
         @ '' --cargo-toml '' @ dquote @ ''/p/Cargo.toml'' @ dquote"
    by simp
  note exec = mp [OF conjunct2 [OF both] bin]
  from run args exec show ?thesis by (intro conjI)
qed

section \<open>Priority of the Python files\<close>





end
